theory Spec2Isabelle
  imports Main "HOL-Library.Word" "HOL-Library.Multiset"
begin

text \<open>
  A model of the hash map benchmarks of the repository: the data generators and
  \<^verbatim>\<open>histogramSort\<close> of hashmap\_benchmarks.cpp, and the generator, the setup and the
  measured loop of \<^verbatim>\<open>BM_RandomAccess\<close> of hashmap\_random\_access.cpp. The hash maps and
  the random number facilities are libraries that the repository uses and does not
  contain; they are parameters of the model, constrained by what their documentation
  promises. The definitions come first, the properties after them.
\<close>

section \<open>Machine integers and vectors\<close>

text \<open>
  The C++ type \<^verbatim>\<open>int\<close> of the benchmark sources is a 32-bit two's-complement integer:
  vector elements, map keys, map counts and the reconstruction index \<^verbatim>\<open>index\<close> all have
  this type. It is modelled as \<open>32 word\<close>, read as a signed number by \<open>sint\<close> and compared
  by \<open><s\<close>. Signed overflow is undefined in C++. In the loops of \<^verbatim>\<open>std::iota\<close> and
  \<^verbatim>\<open>histogramSort\<close> the model wraps around, as the two's-complement targets of the
  benchmark do, and the properties of these loops are stated for the sizes at which
  nothing overflows. Where a generator computes the bounds of its distribution, an
  overflow is an error of the model, and so is a bound that breaks the precondition of
  the distribution: the program does not get past that point.

  Values of type \<^verbatim>\<open>size_t\<close> in these sources are only sizes of vectors and positions
  inside them; they are modelled as \<open>nat\<close>. The conversion
  \<^verbatim>\<open>static_cast<int>(size)\<close> keeps the low 32 bits.
\<close>

type_synonym int32 = "32 word"

text \<open>
  What stops a run: an access outside a vector through the unchecked \<^verbatim>\<open>operator[]\<close>, an
  overflowing \<^verbatim>\<open>int\<close> multiplication, and a \<^verbatim>\<open>std::uniform_int_distribution\<close>
  constructed as \<^verbatim>\<open>dis(a, b)\<close> with \<open>b < a\<close>.
\<close>

datatype error = OutOfBounds | SignedOverflow | BrokenPrecondition

definition static_cast_int :: "nat \<Rightarrow> int32" where
  "static_cast_int sz = word_of_nat sz"

text \<open>\<^verbatim>\<open>++j\<close> does not overflow while \<^verbatim>\<open>j < second\<close> holds.\<close>

lemma sint_increment:
  fixes j second :: int32
  assumes "j <s second"
  shows "sint (j + 1) = sint j + 1"
proof -
  have "sint second < 2 ^ 31"
    using sint_lt [of second] by simp
  moreover have "- (2 ^ 31) \<le> sint j"
    using sint_ge [of j] by simp
  moreover have "sint j < sint second"
    using assms by (simp add: word_sless_alt)
  ultimately have "signed_take_bit 31 (sint j + 1) = sint j + 1"
    by (intro signed_take_bit_int_eq_self) simp_all
  then show ?thesis
    by (simp add: sint_word_add)
qed

section \<open>Data generators (hashmap\_benchmarks.cpp)\<close>

text \<open>
  \<^verbatim>\<open>std::iota(first, last, value)\<close> walks the iterator range, stores \<^verbatim>\<open>value\<close> at the
  current position and increments it. The iterator range is given as the list of vector
  positions in the order the iterator visits them: \<open>[0..<size]\<close> for
  \<^verbatim>\<open>data.begin(), data.end()\<close> and \<open>rev [0..<size]\<close> for \<^verbatim>\<open>data.rbegin(), data.rend()\<close>;
  every position of such a range lies inside the vector.
\<close>

fun std_iota :: "nat list \<Rightarrow> int32 \<Rightarrow> int32 list \<Rightarrow> int32 list" where
  "std_iota [] v data = data"
| "std_iota (p # ps) v data = std_iota ps (v + 1) (data[p := v])"

text \<open>\<^verbatim>\<open>std::vector<int> data(size)\<close> holds \<open>sz\<close> zeros, \<open>sz\<close> being the parameter \<^verbatim>\<open>size\<close>.\<close>

definition GenerateAscendingData :: "nat \<Rightarrow> int32 list" where
  "GenerateAscendingData sz = std_iota [0..<sz] 0 (replicate sz 0)"

definition GenerateDescendingData :: "nat \<Rightarrow> int32 list" where
  "GenerateDescendingData sz = std_iota (rev [0..<sz]) 0 (replicate sz 0)"

section \<open>The random number library\<close>

text \<open>
  \<^verbatim>\<open>std::mt19937\<close>, \<^verbatim>\<open>std::uniform_int_distribution<>\<close> and \<^verbatim>\<open>std::shuffle\<close> belong to
  the C++ standard library, not to the repository; the sequence a distribution draws is
  implementation-defined. They are parameters of the model, over a type \<open>'g\<close> of engine
  states:
  \<^item> \<open>mt19937 seed\<close>: the state of an engine constructed from \<open>seed\<close>;
  \<^item> \<open>uniform_int_distribution (a, b) gen\<close>: the call \<^verbatim>\<open>dis(gen)\<close> of a distribution
    constructed as \<^verbatim>\<open>dis(a, b)\<close>, returning the number drawn and the advanced engine;
  \<^item> \<open>std_shuffle xs gen\<close>: the vector after \<^verbatim>\<open>std::shuffle(xs.begin(), xs.end(), gen)\<close>.
\<close>

record 'g random_lib =
  mt19937 :: "nat \<Rightarrow> 'g"
  uniform_int_distribution :: "int32 \<times> int32 \<Rightarrow> 'g \<Rightarrow> int32 \<times> 'g"
  std_shuffle :: "int32 list \<Rightarrow> 'g \<Rightarrow> int32 list"

text \<open>
  What the standard promises of them: a number drawn from \<^verbatim>\<open>dis(a, b)\<close> with \<open>a \<le> b\<close>
  lies in the closed range, and a shuffle permutes its argument. It promises nothing of
  \<^verbatim>\<open>dis(a, b)\<close> with \<open>b < a\<close>; the generators below stop with an error there and never
  call the library with such bounds.
\<close>

definition uniform_int_spec :: "'g random_lib \<Rightarrow> bool" where
  "uniform_int_spec L \<longleftrightarrow>
     (\<forall>a b gen. a \<le>s b \<longrightarrow>
        a \<le>s fst (uniform_int_distribution L (a, b) gen) \<and>
        fst (uniform_int_distribution L (a, b) gen) \<le>s b)"

definition shuffle_spec :: "'g random_lib \<Rightarrow> bool" where
  "shuffle_spec L \<longleftrightarrow> (\<forall>xs gen. mset (std_shuffle L xs gen) = mset xs)"

text \<open>
  A small executable instance: a linear congruential engine on 32-bit states, a
  distribution that reduces the upper bits of the advanced state into the range, and a
  shuffle that rotates the vector.
\<close>

definition lcg_next :: "32 word \<Rightarrow> 32 word" where
  "lcg_next gen = gen * 1103515245 + 12345"

definition lcg_draw :: "int32 \<times> int32 \<Rightarrow> 32 word \<Rightarrow> int32 \<times> 32 word" where
  "lcg_draw dis gen =
     (case dis of (a, b) \<Rightarrow>
        (a + word_of_int (uint (drop_bit 16 (lcg_next gen)) mod (sint b - sint a + 1)),
         lcg_next gen))"

definition lcg_random_lib :: "32 word random_lib" where
  "lcg_random_lib =
     \<lparr> mt19937 = word_of_nat,
       uniform_int_distribution = lcg_draw,
       std_shuffle = (\<lambda>xs gen. rotate (nat (uint (drop_bit 16 (lcg_next gen)) mod 8)) xs) \<rparr>"

text \<open>
  A second instance, which agrees with the first one at the seed 42 and at the bounds
  \<open>(0, 5)\<close> and \<open>(0, 10)\<close> and nowhere else: other seeds give the state \<open>0\<close>, other
  bounds give the lower bound, and the shuffle changes nothing.
\<close>

definition lcg_variant_lib :: "32 word random_lib" where
  "lcg_variant_lib =
     \<lparr> mt19937 = (\<lambda>seed. if seed = 42 then 42 else 0),
       uniform_int_distribution =
         (\<lambda>dis gen. if dis = (0, 5) \<or> dis = (0, 10) then lcg_draw dis gen else (fst dis, gen)),
       std_shuffle = (\<lambda>xs gen. xs) \<rparr>"

section \<open>GenerateRandomData\<close>

text \<open>
  The loop \<^verbatim>\<open>for (auto& val : data) val = dis(gen);\<close> replaces every element of the
  vector, in order, by the next number drawn; the engine is threaded through the draws.
\<close>

fun assign_each :: "'g random_lib \<Rightarrow> int32 \<times> int32 \<Rightarrow> int32 list \<Rightarrow> 'g \<Rightarrow> int32 list" where
  "assign_each L dis [] gen = []"
| "assign_each L dis (val # data) gen =
     (case uniform_int_distribution L dis gen of
        (val', gen') \<Rightarrow> val' # assign_each L dis data gen')"

text \<open>
  hashmap\_benchmarks.cpp: \<^verbatim>\<open>dis(0, static_cast<int>(size))\<close>, engine \<^verbatim>\<open>gen(42)\<close>. The
  conversion gives a negative upper bound when bit 31 of \<^verbatim>\<open>size\<close> is set, first at
  \<open>2^31\<close>; the distribution then has no range to draw from.
\<close>

definition GenerateRandomData_dis :: "nat \<Rightarrow> int32 \<times> int32" where
  "GenerateRandomData_dis sz = (0, static_cast_int sz)"

definition GenerateRandomData :: "'g random_lib \<Rightarrow> nat \<Rightarrow> error + int32 list" where
  "GenerateRandomData L sz =
     (if snd (GenerateRandomData_dis sz) <s fst (GenerateRandomData_dis sz)
      then Inl BrokenPrecondition
      else Inr (assign_each L (GenerateRandomData_dis sz) (replicate sz 0) (mt19937 L 42)))"

text \<open>
  hashmap\_random\_access.cpp has a function of the same name with
  \<^verbatim>\<open>dis(0, static_cast<int>(size) * 2)\<close> (``We generate 2*size range to ensure some
  spread''), engine \<^verbatim>\<open>gen(42)\<close>. The product is an \<^verbatim>\<open>int\<close> multiplication: it overflows
  when the converted size is outside \<open>[- 2^30, 2^30)\<close>, first at \<open>2^30\<close>, and it is
  negative when the converted size is.
\<close>

definition RandomAccess_GenerateRandomData_dis :: "nat \<Rightarrow> int32 \<times> int32" where
  "RandomAccess_GenerateRandomData_dis sz = (0, static_cast_int sz * 2)"

definition RandomAccess_GenerateRandomData :: "'g random_lib \<Rightarrow> nat \<Rightarrow> error + int32 list" where
  "RandomAccess_GenerateRandomData L sz =
     (if sint (static_cast_int sz) * 2 < - (2 ^ 31) \<or> 2 ^ 31 \<le> sint (static_cast_int sz) * 2
      then Inl SignedOverflow
      else if snd (RandomAccess_GenerateRandomData_dis sz) <s
              fst (RandomAccess_GenerateRandomData_dis sz)
      then Inl BrokenPrecondition
      else Inr (assign_each L (RandomAccess_GenerateRandomData_dis sz) (replicate sz 0)
                  (mt19937 L 42)))"

section \<open>The map abstraction under test\<close>

text \<open>
  \<^verbatim>\<open>histogramSort\<close> and \<^verbatim>\<open>BM_RandomAccess\<close> are templates over the type
  \<^verbatim>\<open>Hashmap\<close>; the four instantiations (\<^verbatim>\<open>std::unordered_map<int, int>\<close>,
  \<^verbatim>\<open>absl::flat_hash_map<int, int>\<close>, \<^verbatim>\<open>robin_hood::unordered_map<int, int>\<close>,
  \<^verbatim>\<open>phmap::flat_hash_map<int, int>\<close>) are libraries outside the repository. The
  template parameter becomes a parameter of the model: a record of the operations the
  sources call, over a representation type \<open>'m\<close>.
  \<^item> \<open>hm_new\<close>: the default constructor;
  \<^item> \<open>hm_subscript m k f\<close>: \<^verbatim>\<open>m[k]\<close> followed by an update \<open>f\<close> of the mapped value
    through the returned reference (\<^verbatim>\<open>m[k]++\<close>, \<^verbatim>\<open>m[k] = v\<close>); \<^verbatim>\<open>operator[]\<close>
    inserts a value-initialised (zero) mapped value first when the key is absent;
  \<^item> \<open>hm_reserve\<close>: \<^verbatim>\<open>m.reserve(n)\<close>;
  \<^item> \<open>hm_find\<close>: \<^verbatim>\<open>m.find(k)\<close>, \<open>None\<close> standing for \<^verbatim>\<open>m.end()\<close>;
  \<^item> \<open>hm_entries\<close>: the pairs \<^verbatim>\<open>(i->first, i->second)\<close> that the iteration from
    \<^verbatim>\<open>m.begin()\<close> to \<^verbatim>\<open>m.end()\<close> visits, in the order of the visit.
\<close>

record 'm Hashmap =
  hm_new :: "'m"
  hm_subscript :: "'m \<Rightarrow> int32 \<Rightarrow> (int32 \<Rightarrow> int32) \<Rightarrow> 'm"
  hm_reserve :: "'m \<Rightarrow> nat \<Rightarrow> 'm"
  hm_find :: "'m \<Rightarrow> int32 \<Rightarrow> (int32 \<times> int32) option"
  hm_entries :: "'m \<Rightarrow> (int32 \<times> int32) list"

text \<open>The mapped value \<^verbatim>\<open>operator[]\<close> hands out for a key: zero when the key is new.\<close>

definition mapped_or_zero :: "(int32 \<times> int32) list \<Rightarrow> int32 \<Rightarrow> int32" where
  "mapped_or_zero es k = (case map_of es k of None \<Rightarrow> 0 | Some c \<Rightarrow> c)"

text \<open>
  What the sources rely on (the unordered associative container requirements), for the
  map states \<open>I\<close> that the operations produce: keys are unique, \<^verbatim>\<open>operator[]\<close> changes
  the mapped value of its key only, \<^verbatim>\<open>reserve\<close> keeps the contents, \<^verbatim>\<open>find\<close> returns the
  entry of the key. The order of \<open>hm_entries\<close> is left open.
\<close>

definition hashmap_spec :: "'m Hashmap \<Rightarrow> ('m \<Rightarrow> bool) \<Rightarrow> bool" where
  "hashmap_spec H I \<longleftrightarrow>
     I (hm_new H) \<and> hm_entries H (hm_new H) = [] \<and>
     (\<forall>m. I m \<longrightarrow> distinct (map fst (hm_entries H m))) \<and>
     (\<forall>m k f. I m \<longrightarrow> I (hm_subscript H m k f) \<and>
        map_of (hm_entries H (hm_subscript H m k f)) =
          (map_of (hm_entries H m))(k \<mapsto> f (mapped_or_zero (hm_entries H m) k))) \<and>
     (\<forall>m n. I m \<longrightarrow> I (hm_reserve H m n) \<and>
        map_of (hm_entries H (hm_reserve H m n)) = map_of (hm_entries H m)) \<and>
     (\<forall>m k. I m \<longrightarrow>
        hm_find H m k = map_option (Pair k) (map_of (hm_entries H m) k))"

text \<open>
  A map kept as an association list, a new key going to the end: a small executable
  instance of the abstraction, iterating in order of first insertion.
\<close>

fun al_subscript ::
  "(int32 \<times> int32) list \<Rightarrow> int32 \<Rightarrow> (int32 \<Rightarrow> int32) \<Rightarrow> (int32 \<times> int32) list" where
  "al_subscript [] k f = [(k, f 0)]"
| "al_subscript ((k', c) # es) k f =
     (if k' = k then (k', f c) # es else (k', c) # al_subscript es k f)"

definition alist_Hashmap :: "(int32 \<times> int32) list Hashmap" where
  "alist_Hashmap =
     \<lparr> hm_new = [],
       hm_subscript = al_subscript,
       hm_reserve = (\<lambda>m n. m),
       hm_find = (\<lambda>m k. map_option (Pair k) (map_of m k)),
       hm_entries = (\<lambda>m. m) \<rparr>"

section \<open>histogramSort (hashmap\_benchmarks.cpp)\<close>

text \<open>
  \<^verbatim>\<open>std::vector::operator[]\<close> does not check its index; a write outside the vector is
  undefined behaviour and is an error of the model. The \<^verbatim>\<open>int\<close> index is converted to
  \<^verbatim>\<open>size_t\<close>, so a negative index is far outside every vector.
\<close>

definition vec_write :: "int32 list \<Rightarrow> int32 \<Rightarrow> int32 \<Rightarrow> error + int32 list" where
  "vec_write data index v =
     (if 0 \<le> sint index \<and> nat (sint index) < length data
      then Inr (data[nat (sint index) := v]) else Inl OutOfBounds)"

text \<open>The counting loop: \<^verbatim>\<open>for (int val : data) sorted[val]++;\<close>\<close>

definition count_keys :: "'m Hashmap \<Rightarrow> int32 list \<Rightarrow> 'm" where
  "count_keys H data = fold (\<lambda>val sorted. hm_subscript H sorted val (\<lambda>c. c + 1)) data (hm_new H)"

text \<open>
  The inner loop \<^verbatim>\<open>for (int j = 0; j < i->second; ++j) data[index++] = i->first;\<close>
  on the state \<open>(data, index)\<close>.
\<close>

function write_copies ::
  "int32 \<Rightarrow> int32 \<Rightarrow> int32 \<Rightarrow> int32 list \<times> int32 \<Rightarrow> error + int32 list \<times> int32" where
  "write_copies j second first (data, index) =
     (if j <s second then
        (case vec_write data index first of
           Inl e \<Rightarrow> Inl e
         | Inr data' \<Rightarrow> write_copies (j + 1) second first (data', index + 1))
      else Inr (data, index))"
  by pat_completeness auto
termination
proof (relation "measure (\<lambda>(j, second, first, st). nat (sint second - sint j))")
  show "wf (measure (\<lambda>(j, second, first, st). nat (sint second - sint j)))"
    by simp
next
  fix j second first index :: int32 and data data' :: "int32 list"
  assume less: "j <s second"
  then have "sint j < sint second"
    by (simp add: word_sless_alt)
  with less show "((j + 1, second, first, data', index + 1), (j, second, first, data, index))
      \<in> measure (\<lambda>(j, second, first, st). nat (sint second - sint j))"
    by (simp add: sint_increment)
qed

text \<open>The outer loop over the entries of the map, then the whole function.\<close>

fun reconstruct ::
  "(int32 \<times> int32) list \<Rightarrow> int32 list \<times> int32 \<Rightarrow> error + int32 list \<times> int32" where
  "reconstruct [] st = Inr st"
| "reconstruct ((first, second) # es) st =
     (case write_copies 0 second first st of
        Inl e \<Rightarrow> Inl e
      | Inr st' \<Rightarrow> reconstruct es st')"

definition histogramSort_loops :: "'m Hashmap \<Rightarrow> int32 list \<Rightarrow> error + int32 list \<times> int32" where
  "histogramSort_loops H data =
     (let sorted = count_keys H data in reconstruct (hm_entries H sorted) (data, 0))"

definition histogramSort :: "'m Hashmap \<Rightarrow> int32 list \<Rightarrow> error + int32 list" where
  "histogramSort H data =
     (case histogramSort_loops H data of Inl e \<Rightarrow> Inl e | Inr (data', index) \<Rightarrow> Inr data')"

section \<open>BM\_RandomAccess (hashmap\_random\_access.cpp)\<close>

text \<open>
  Setup: \<^verbatim>\<open>map.reserve(size)\<close>, then \<^verbatim>\<open>map[val] = val\<close> for every generated value. A
  generator that stops with an error stops the benchmark before the setup.
\<close>

definition populate :: "'m Hashmap \<Rightarrow> nat \<Rightarrow> int32 list \<Rightarrow> 'm" where
  "populate H sz data =
     fold (\<lambda>val m. hm_subscript H m val (\<lambda>c. val)) data (hm_reserve H (hm_new H) sz)"

text \<open>
  The measured loop \<^verbatim>\<open>for (auto _ : state)\<close> runs as many times as the benchmark
  framework decides: \<open>iters\<close>. Its state is the cursor \<^verbatim>\<open>lookup_idx\<close>; the model also
  records, in order, the results of \<^verbatim>\<open>map.find(key)\<close> that the source hands to
  \<^verbatim>\<open>benchmark::DoNotOptimize\<close>. \<^verbatim>\<open>lookups[lookup_idx]\<close> is an unchecked read: outside
  the vector it is an error of the model. (\<^verbatim>\<open>lookup_mask\<close> is computed and never used.)
\<close>

fun measured_loop ::
  "'m Hashmap \<Rightarrow> 'm \<Rightarrow> int32 list \<Rightarrow> nat \<Rightarrow> nat \<times> (int32 \<times> int32) option list \<Rightarrow>
   error + nat \<times> (int32 \<times> int32) option list" where
  "measured_loop H m lookups 0 st = Inr st"
| "measured_loop H m lookups (Suc iters) (lookup_idx, found) =
     (if lookup_idx < length lookups then
        (let key = lookups ! lookup_idx;
             found' = found @ [hm_find H m key];
             lookup_idx' = lookup_idx + 1
         in measured_loop H m lookups iters
              (if lookup_idx' \<ge> length lookups then 0 else lookup_idx', found'))
      else Inl OutOfBounds)"

definition BM_RandomAccess ::
  "'m Hashmap \<Rightarrow> 'g random_lib \<Rightarrow> nat \<Rightarrow> nat \<Rightarrow> error + nat \<times> (int32 \<times> int32) option list" where
  "BM_RandomAccess H L sz iters =
     (case RandomAccess_GenerateRandomData L sz of
        Inl e \<Rightarrow> Inl e
      | Inr data \<Rightarrow>
          (let m = populate H sz data;
               lookups = std_shuffle L data (mt19937 L 123)
           in measured_loop H m lookups iters (0, [])))"

section \<open>Vocabulary of the properties\<close>

text \<open>
  The runs of equal keys that a list of map entries stands for, entry by entry, and the
  runs that a list of keys stands for in a sequence \<open>S\<close>: each key as often as it occurs
  in \<open>S\<close>.
\<close>

definition copies :: "(int32 \<times> int32) list \<Rightarrow> int32 list" where
  "copies es = concat (map (\<lambda>(first, second). replicate (nat (sint second)) first) es)"

definition key_groups :: "int32 list \<Rightarrow> int32 list \<Rightarrow> int32 list" where
  "key_groups S ks = concat (map (\<lambda>k. replicate (count_list S k) k) ks)"

text \<open>
  The number that the draw of index \<open>i\<close> returns when a distribution with bounds \<open>dis\<close>
  draws again and again from an engine constructed from \<open>seed\<close>.
\<close>

definition nth_draw :: "'g random_lib \<Rightarrow> int32 \<times> int32 \<Rightarrow> nat \<Rightarrow> nat \<Rightarrow> int32" where
  "nth_draw L dis seed i =
     fst (uniform_int_distribution L dis
            (((\<lambda>gen. snd (uniform_int_distribution L dis gen)) ^^ i) (mt19937 L seed)))"

section \<open>Properties of the ascending and descending generators\<close>

lemma length_std_iota: "length (std_iota ps v data) = length data"
  by (induction ps arbitrary: v data) simp_all

lemma std_iota_untouched:
  "q \<notin> set ps \<Longrightarrow> std_iota ps v data ! q = data ! q"
  by (induction ps arbitrary: v data) auto

lemma std_iota_nth:
  "distinct ps \<Longrightarrow> \<forall>p \<in> set ps. p < length data \<Longrightarrow> k < length ps \<Longrightarrow>
   std_iota ps v data ! (ps ! k) = v + word_of_nat k"
proof (induction ps arbitrary: v data k)
  case Nil
  then show ?case by simp
next
  case (Cons p ps)
  show ?case
  proof (cases k)
    case 0
    with Cons.prems show ?thesis
      by (simp add: std_iota_untouched)
  next
    case (Suc j)
    with Cons.prems have "std_iota ps (v + 1) (data[p := v]) ! (ps ! j) = (v + 1) + word_of_nat j"
      by (intro Cons.IH) auto
    with Suc show ?thesis
      by (simp add: add.assoc add.commute)
  qed
qed

lemma GenerateAscendingData_length: "length (GenerateAscendingData n) = n"
  by (simp add: GenerateAscendingData_def length_std_iota)

lemma GenerateAscendingData_nth:
  assumes "i < n"
  shows "GenerateAscendingData n ! i = word_of_nat i"
proof -
  have "std_iota [0..<n] 0 (replicate n 0) ! ([0..<n] ! i) = 0 + word_of_nat i"
    using assms by (intro std_iota_nth) auto
  with assms show ?thesis
    by (simp add: GenerateAscendingData_def)
qed

lemma GenerateDescendingData_length: "length (GenerateDescendingData n) = n"
  by (simp add: GenerateDescendingData_def length_std_iota)

lemma GenerateDescendingData_nth:
  assumes "i < n"
  shows "GenerateDescendingData n ! i = word_of_nat (n - 1 - i)"
proof -
  let ?k = "n - 1 - i"
  have k: "?k < n" using assms by simp
  have "std_iota (rev [0..<n]) 0 (replicate n 0) ! (rev [0..<n] ! ?k) = 0 + word_of_nat ?k"
    using k by (intro std_iota_nth) auto
  moreover have "rev [0..<n] ! ?k = i"
    using assms k by (simp add: rev_nth)
  ultimately show ?thesis
    by (simp add: GenerateDescendingData_def)
qed

lemma sint_word_of_int_small:
  "- (2 ^ 31) \<le> x \<Longrightarrow> x < 2 ^ 31 \<Longrightarrow> sint (word_of_int x :: int32) = x"
  by (simp add: int_word_sint)

lemma sint_word_of_nat_small:
  "n < 2 ^ 31 \<Longrightarrow> sint (word_of_nat n :: int32) = int n"
  using sint_word_of_int_small [of "int n"] by simp

text \<open>
  Claim \<^bold>\<open>C9\<close>, for the sizes that the element type can count. For every size \<open>N\<close> up to
  \<open>2^31 - 1\<close>, the largest \<^verbatim>\<open>int\<close>, the ascending generator returns \<open>N\<close> elements and the
  element at each position \<open>i\<close> in \<open>[0, N)\<close> is \<open>i\<close>; size \<open>0\<close> yields the empty sequence.
  With \<open>2^31 + 1\<close> elements, the element at position \<open>2^31\<close> is \<open>- 2^31\<close>.
\<close>

theorem GenerateAscendingData_correct:
  "N < 2 ^ 31 \<Longrightarrow>
   length (GenerateAscendingData N) = N \<and>
   (\<forall>i<N. sint (GenerateAscendingData N ! i) = int i) \<and>
   GenerateAscendingData 0 = []"
  by (simp add: GenerateAscendingData_length GenerateAscendingData_nth sint_word_of_nat_small)
     (simp add: GenerateAscendingData_def)

theorem GenerateAscendingData_correct_witness:
  "(4 :: nat) < 2 ^ 31 \<and> length (GenerateAscendingData 4) = 4 \<and>
   map sint (GenerateAscendingData 4) = [0, 1, 2, 3]"
proof -
  have run: "GenerateAscendingData 4 = [0, 1, 2, 3]"
    by code_simp
  show ?thesis
    using GenerateAscendingData_correct [of 4] by (simp add: run)
qed

theorem GenerateAscendingData_overflow:
  "(2147483648 :: nat) < 2147483649 \<and>
   sint (GenerateAscendingData 2147483649 ! 2147483648) = - 2147483648 \<and>
   sint (GenerateAscendingData 2147483649 ! 2147483648) \<noteq> int 2147483648"
proof -
  have "GenerateAscendingData 2147483649 ! 2147483648 = (word_of_nat 2147483648 :: int32)"
    by (rule GenerateAscendingData_nth) simp
  then show ?thesis
    by simp
qed

text \<open>
  Claim \<^bold>\<open>C10\<close>, for the sizes that the element type can count. For every size \<open>N\<close> up
  to \<open>2^31 - 1\<close>, the descending generator returns \<open>N\<close> elements and the element at each
  position \<open>i\<close> in \<open>[0, N)\<close> is \<open>N - 1 - i\<close>. With \<open>2^31 + 1\<close> elements, the element at
  position \<open>0\<close> is \<open>- 2^31\<close>.
\<close>

theorem GenerateDescendingData_correct:
  "N < 2 ^ 31 \<Longrightarrow>
   length (GenerateDescendingData N) = N \<and>
   (\<forall>i<N. sint (GenerateDescendingData N ! i) = int N - 1 - int i)"
proof (intro conjI allI impI)
  fix i
  assume N: "N < 2 ^ 31" and i: "i < N"
  then have "N - 1 - i < 2 ^ 31"
    by simp
  then have "sint (word_of_nat (N - 1 - i) :: int32) = int (N - 1 - i)"
    by (rule sint_word_of_nat_small)
  with i show "sint (GenerateDescendingData N ! i) = int N - 1 - int i"
    by (simp add: GenerateDescendingData_nth of_nat_diff)
qed (simp add: GenerateDescendingData_length)

theorem GenerateDescendingData_correct_witness:
  "(4 :: nat) < 2 ^ 31 \<and> length (GenerateDescendingData 4) = 4 \<and>
   map sint (GenerateDescendingData 4) = [3, 2, 1, 0]"
proof -
  have run: "GenerateDescendingData 4 = [3, 2, 1, 0]"
    by code_simp
  show ?thesis
    using GenerateDescendingData_correct [of 4] by (simp add: run)
qed

theorem GenerateDescendingData_overflow:
  "(0 :: nat) < 2147483649 \<and>
   sint (GenerateDescendingData 2147483649 ! 0) = - 2147483648 \<and>
   sint (GenerateDescendingData 2147483649 ! 0) \<noteq> int 2147483649 - 1 - int 0"
proof -
  have "GenerateDescendingData 2147483649 ! 0 = (word_of_nat (2147483649 - 1 - 0) :: int32)"
    by (rule GenerateDescendingData_nth) simp
  then show ?thesis
    by simp
qed

section \<open>The association-list map is a map abstraction\<close>

lemma map_of_al_subscript:
  "map_of (al_subscript es k f) = (map_of es)(k \<mapsto> f (mapped_or_zero es k))"
  by (induction es k f rule: al_subscript.induct) (auto simp: mapped_or_zero_def)

lemma keys_al_subscript:
  "fst ` set (al_subscript es k f) = insert k (fst ` set es)"
  by (induction es k f rule: al_subscript.induct) auto

lemma distinct_al_subscript:
  "distinct (map fst es) \<Longrightarrow> distinct (map fst (al_subscript es k f))"
  by (induction es k f rule: al_subscript.induct) (auto simp: keys_al_subscript)

lemma alist_Hashmap_spec: "hashmap_spec alist_Hashmap (\<lambda>m. distinct (map fst m))"
  by (simp add: hashmap_spec_def alist_Hashmap_def map_of_al_subscript distinct_al_subscript)

section \<open>Consequences of the map contract; the counting loop\<close>

lemma hashmap_spec_subscript:
  assumes "hashmap_spec H I" "I m"
  shows "I (hm_subscript H m k f)"
    and "map_of (hm_entries H (hm_subscript H m k f)) =
          (map_of (hm_entries H m))(k \<mapsto> f (mapped_or_zero (hm_entries H m) k))"
  using assms by (simp_all add: hashmap_spec_def)

lemma hashmap_spec_distinct:
  "hashmap_spec H I \<Longrightarrow> I m \<Longrightarrow> distinct (map fst (hm_entries H m))"
  by (simp add: hashmap_spec_def)

lemma hashmap_spec_new:
  assumes "hashmap_spec H I"
  shows "I (hm_new H)" and "hm_entries H (hm_new H) = []"
  using assms by (simp_all add: hashmap_spec_def)

lemma fold_subscript_counts:
  assumes "hashmap_spec H I"
  shows "I m \<Longrightarrow>
    I (fold (\<lambda>val sorted. hm_subscript H sorted val (\<lambda>c. c + 1)) xs m) \<and>
    map_of (hm_entries H (fold (\<lambda>val sorted. hm_subscript H sorted val (\<lambda>c. c + 1)) xs m)) =
      (\<lambda>k. if k \<in> set xs
            then Some (mapped_or_zero (hm_entries H m) k + word_of_nat (count_list xs k))
            else map_of (hm_entries H m) k)"
proof (induction xs arbitrary: m)
  case Nil
  then show ?case by simp
next
  case (Cons x xs)
  let ?m = "hm_subscript H m x (\<lambda>c. c + 1)"
  have I: "I ?m"
    and upd: "map_of (hm_entries H ?m) =
      (map_of (hm_entries H m))(x \<mapsto> mapped_or_zero (hm_entries H m) x + 1)"
    using hashmap_spec_subscript [OF assms Cons.prems] by simp_all
  have mz: "mapped_or_zero (hm_entries H ?m) k =
      (if k = x then mapped_or_zero (hm_entries H m) x + 1 else mapped_or_zero (hm_entries H m) k)" for k
    by (simp add: mapped_or_zero_def upd)
  show ?case
    using Cons.IH [OF I] by (auto simp: mz upd fun_eq_iff)
qed

lemma count_keys_spec:
  assumes "hashmap_spec H I"
  shows "I (count_keys H S)"
    and "map_of (hm_entries H (count_keys H S)) =
      (\<lambda>k. if k \<in> set S then Some (word_of_nat (count_list S k)) else None)"
proof -
  have new: "I (hm_new H)" and ents: "hm_entries H (hm_new H) = []"
    using hashmap_spec_new [OF assms] by simp_all
  note run = fold_subscript_counts [OF assms new, of S]
  show "I (count_keys H S)"
    using run by (simp add: count_keys_def)
  show "map_of (hm_entries H (count_keys H S)) =
      (\<lambda>k. if k \<in> set S then Some (word_of_nat (count_list S k)) else None)"
    using run by (auto simp: count_keys_def ents mapped_or_zero_def fun_eq_iff)
qed

lemma count_keys_entries:
  assumes "hashmap_spec H I"
  shows "distinct (map fst (hm_entries H (count_keys H S)))"
    and "fst ` set (hm_entries H (count_keys H S)) = set S"
    and "(k, c) \<in> set (hm_entries H (count_keys H S)) \<Longrightarrow> c = word_of_nat (count_list S k)"
proof -
  let ?es = "hm_entries H (count_keys H S)"
  note spec = count_keys_spec [OF assms, of S]
  show d: "distinct (map fst ?es)"
    using hashmap_spec_distinct [OF assms spec(1)] .
  have "dom (map_of ?es) = set S"
    by (auto simp: spec(2) split: if_splits)
  then show "fst ` set ?es = set S"
    by (simp add: dom_map_of_conv_image_fst)
  assume "(k, c) \<in> set ?es"
  with d have "map_of ?es k = Some c"
    by simp
  then show "c = word_of_nat (count_list S k)"
    by (simp add: spec(2) split: if_splits)
qed


section \<open>The reconstruction loops\<close>

lemma sint_plus_one:
  fixes x :: int32
  assumes "sint x + 1 < 2 ^ 31"
  shows "sint (x + 1) = sint x + 1"
proof -
  have "- (2 ^ 31) \<le> sint x"
    using sint_ge [of x] by simp
  with assms have "signed_take_bit 31 (sint x + 1) = sint x + 1"
    by (intro signed_take_bit_int_eq_self) simp_all
  then show ?thesis
    by (simp add: sint_word_add)
qed

declare write_copies.simps [simp del]

lemma write_copies_run:
  fixes j second first index :: int32
  assumes "nat (sint second - sint j) = n"
    and "0 \<le> sint index"
    and "nat (sint index) + n \<le> length data"
    and "nat (sint index) + n < 2 ^ 31"
  shows "write_copies j second first (data, index) =
     Inr (take (nat (sint index)) data @ replicate n first @ drop (nat (sint index) + n) data,
          index + word_of_nat n)"
  using assms
proof (induction n arbitrary: j data index)
  case 0
  then have "\<not> j <s second"
    by (simp add: word_sless_alt)
  then show ?case
    by (subst write_copies.simps) simp
next
  case (Suc n)
  let ?i = "nat (sint index)"
  from Suc.prems(1) have less: "j <s second"
    by (simp add: word_sless_alt)
  have j: "nat (sint second - sint (j + 1)) = n"
    using Suc.prems(1) by (simp add: sint_increment [OF less])
  have i: "?i < length data"
    using Suc.prems(3) by simp
  have idx: "sint (index + 1) = sint index + 1"
    using Suc.prems(2,4) by (intro sint_plus_one) simp
  have w: "vec_write data index first = Inr (data[?i := first])"
    using Suc.prems(2) i by (simp add: vec_write_def)
  have "write_copies (j + 1) second first (data[?i := first], index + 1) =
     Inr (take (nat (sint (index + 1))) (data[?i := first]) @ replicate n first @
          drop (nat (sint (index + 1)) + n) (data[?i := first]),
          index + 1 + word_of_nat n)"
    using Suc.prems(2,3,4) by (intro Suc.IH [OF j]) (simp_all add: idx)
  moreover have "nat (sint (index + 1)) = Suc ?i"
    using Suc.prems(2) by (simp add: idx nat_add_distrib)
  moreover have "take (Suc ?i) (data[?i := first]) = take ?i data @ [first]"
    using i by (simp add: take_Suc_conv_app_nth)
  ultimately show ?case
    using less w by (subst write_copies.simps) (simp add: add.assoc add.commute)
qed


lemma sint_plus_nat:
  fixes x :: int32
  assumes "0 \<le> sint x" and "nat (sint x) + n < 2 ^ 31"
  shows "sint (x + word_of_nat n) = sint x + int n"
proof -
  have n: "sint (word_of_nat n :: int32) = int n"
    using assms(2) by (intro sint_word_of_nat_small) simp
  have "int (nat (sint x) + n) < 2 ^ 31"
    using assms(2) by (simp only: of_nat_less_numeral_power_cancel_iff)
  then have "sint x + int n < 2 ^ 31"
    using assms(1) by simp
  with assms(1) have "signed_take_bit 31 (sint x + int n) = sint x + int n"
    by (intro signed_take_bit_int_eq_self) simp_all
  then show ?thesis
    by (simp add: sint_word_add n)
qed

lemma copies_simps [simp]:
  "copies [] = []"
  "copies ((first, second) # es) = replicate (nat (sint second)) first @ copies es"
  by (simp_all add: copies_def)

lemma reconstruct_run:
  fixes index :: int32
  assumes "0 \<le> sint index"
    and "nat (sint index) + length (copies es) \<le> length data"
    and "nat (sint index) + length (copies es) < 2 ^ 31"
  shows "reconstruct es (data, index) =
     Inr (take (nat (sint index)) data @ copies es @
            drop (nat (sint index) + length (copies es)) data,
          index + word_of_nat (length (copies es)))"
  using assms
proof (induction es arbitrary: data index)
  case Nil
  then show ?case by simp
next
  case (Cons e es)
  obtain first second where e: "e = (first, second)"
    by (cases e)
  let ?i = "nat (sint index)"
  let ?n = "nat (sint second)"
  let ?data = "take ?i data @ replicate ?n first @ drop (?i + ?n) data"
  let ?index = "index + word_of_nat ?n"
  have len: "length (copies (e # es)) = ?n + length (copies es)"
    by (simp add: e)
  have inner: "write_copies 0 second first (data, index) = Inr (?data, ?index)"
    using Cons.prems by (intro write_copies_run) (simp_all add: len)
  have idx: "sint ?index = sint index + int ?n"
    using Cons.prems by (intro sint_plus_nat) (simp_all add: len)
  then have i': "nat (sint ?index) = ?i + ?n"
    using Cons.prems(1) by (simp add: nat_add_distrib)
  have pos: "0 \<le> sint ?index"
    using Cons.prems(1) by (simp add: idx)
  have ldata: "length ?data = length data"
    using Cons.prems(2) by (simp add: len)
  have "reconstruct es (?data, ?index) =
     Inr (take (nat (sint ?index)) ?data @ copies es @
            drop (nat (sint ?index) + length (copies es)) ?data,
          ?index + word_of_nat (length (copies es)))"
    using Cons.prems(2,3) by (intro Cons.IH [OF pos]) (simp_all add: i' len ldata)
  moreover have "take (?i + ?n) ?data = take ?i data @ replicate ?n first"
    using Cons.prems(2) by (simp add: len)
  moreover have "drop (?i + ?n + length (copies es)) ?data =
      drop (?i + ?n + length (copies es)) data"
    using Cons.prems(2) by (simp add: len ac_simps)
  ultimately show ?case
    by (simp add: e inner i' add.assoc)
qed


section \<open>Runs of keys\<close>

lemma count_list_replicate:
  "count_list (replicate n k) x = (if k = x then n else 0)"
  by (induction n) auto

lemma count_key_groups:
  "distinct ks \<Longrightarrow>
   count_list (key_groups S ks) x = (if x \<in> set ks then count_list S x else 0)"
  by (induction ks) (auto simp: key_groups_def count_list_replicate)

lemma mset_key_groups:
  assumes "distinct ks" and "set ks = set S"
  shows "mset (key_groups S ks) = mset S"
proof (rule multiset_eqI)
  fix x
  show "count (mset (key_groups S ks)) x = count (mset S) x"
    using assms by (simp add: count_mset count_key_groups count_list_0_iff)
qed

lemma count_list_le_length: "count_list xs x \<le> length xs"
  by (induction xs) auto

lemma copies_count_keys:
  assumes "hashmap_spec H I" and "length S < 2 ^ 31"
  shows "copies (hm_entries H (count_keys H S)) =
         key_groups S (map fst (hm_entries H (count_keys H S)))"
proof -
  have "replicate (nat (sint second)) first = replicate (count_list S first) first"
    if "(first, second) \<in> set (hm_entries H (count_keys H S))" for first second
  proof -
    have "count_list S first < 2 ^ 31"
      using count_list_le_length [of S first] assms(2) by simp
    then show ?thesis
      using count_keys_entries(3) [OF assms(1) that] by (simp add: sint_word_of_nat_small)
  qed
  then show ?thesis
    unfolding copies_def key_groups_def map_map
    by (intro arg_cong [where f = concat] map_cong) auto
qed


lemma length_key_groups:
  assumes "distinct ks" and "set ks = set S"
  shows "length (key_groups S ks) = length S"
proof -
  have "size (mset (key_groups S ks)) = size (mset S)"
    using mset_key_groups [OF assms] by simp
  then show ?thesis by simp
qed

section \<open>histogramSort on inputs of at most \<open>2^31 - 1\<close> elements\<close>

lemma histogramSort_loops_bounded:
  assumes "hashmap_spec H I" and "length S < 2 ^ 31"
  shows "histogramSort_loops H S =
     Inr (key_groups S (map fst (hm_entries H (count_keys H S))), word_of_nat (length S))"
proof -
  let ?es = "hm_entries H (count_keys H S)"
  have c: "copies ?es = key_groups S (map fst ?es)"
    using copies_count_keys [OF assms] .
  have len: "length (copies ?es) = length S"
    unfolding c using count_keys_entries(1,2) [OF assms(1), of S]
    by (intro length_key_groups) simp_all
  have "reconstruct ?es (S, 0) =
     Inr (take (nat (sint (0 :: int32))) S @ copies ?es @
            drop (nat (sint (0 :: int32)) + length (copies ?es)) S,
          0 + word_of_nat (length (copies ?es)))"
    using assms(2) by (intro reconstruct_run) (simp_all add: len)
  then show ?thesis
    using len by (simp add: histogramSort_loops_def c)
qed

lemma histogramSort_bounded:
  assumes "hashmap_spec H I" and "length S < 2 ^ 31"
  shows "histogramSort H S = Inr (key_groups S (map fst (hm_entries H (count_keys H S))))"
  by (simp add: histogramSort_def histogramSort_loops_bounded [OF assms])

section \<open>histogramSort on longer inputs, with the association-list map\<close>

lemma fold_al_subscript_replicate:
  "fold (\<lambda>val sorted. al_subscript sorted val (\<lambda>c. c + 1)) (replicate n a) ((a, c) # es) =
   (a, c + word_of_nat n) # es"
  by (induction n arbitrary: c) (simp_all add: add.assoc add.commute)

lemma count_keys_alist_replicate:
  "count_keys alist_Hashmap (replicate (Suc n) a) = [(a, word_of_nat (Suc n))]"
proof -
  have "count_keys alist_Hashmap (replicate (Suc n) a) =
      fold (\<lambda>val sorted. al_subscript sorted val (\<lambda>c. c + 1)) (replicate n a) [(a, 1)]"
    by (simp add: count_keys_def alist_Hashmap_def del: fold_replicate)
  also have "\<dots> = [(a, 1 + word_of_nat n)]"
    by (rule fold_al_subscript_replicate)
  finally show ?thesis
    by simp
qed

lemma count_keys_alist_snoc:
  "count_keys alist_Hashmap (xs @ [b]) = al_subscript (count_keys alist_Hashmap xs) b (\<lambda>c. c + 1)"
  by (simp add: count_keys_def alist_Hashmap_def)

lemma write_copies_none: "\<not> 0 <s second \<Longrightarrow> write_copies 0 second first st = Inr st"
  by (cases st) (simp add: write_copies.simps)

lemma write_copies_once:
  "data \<noteq> [] \<Longrightarrow> write_copies 0 1 first (data, 0) = Inr (data[0 := first], 1)"
  by (simp add: write_copies.simps [of 0] write_copies.simps [of 1] vec_write_def word_sless_alt)

lemma histogramSort_alist_overflow:
  assumes "a \<noteq> b"
  shows "histogramSort alist_Hashmap (replicate 2147483648 a @ [b]) =
     Inr ((replicate 2147483648 a @ [b])[0 := b])"
proof -
  have "replicate 2147483648 a = replicate (Suc 2147483647) a"
    by simp
  then have "count_keys alist_Hashmap (replicate 2147483648 a) = [(a, word_of_nat (Suc 2147483647))]"
    by (simp only: count_keys_alist_replicate)
  then have "count_keys alist_Hashmap (replicate 2147483648 a @ [b]) =
      [(a, 2147483648), (b, 1)]"
    using assms by (simp add: count_keys_alist_snoc)
  then show ?thesis
    by (simp add: histogramSort_def histogramSort_loops_def alist_Hashmap_def
        write_copies_none write_copies_once word_sless_alt)
qed

lemma al_subscript_fresh:
  "k \<notin> fst ` set es \<Longrightarrow> al_subscript es k f = es @ [(k, f 0)]"
  by (induction es k f rule: al_subscript.induct) auto

lemma fold_al_subscript_fresh:
  "distinct S \<Longrightarrow> set S \<inter> fst ` set es = {} \<Longrightarrow>
   fold (\<lambda>val sorted. al_subscript sorted val (\<lambda>c. c + 1)) S es = es @ map (\<lambda>k. (k, 1)) S"
proof (induction S arbitrary: es)
  case Nil
  then show ?case by simp
next
  case (Cons x S)
  from Cons.prems have x: "x \<notin> fst ` set es"
    by auto
  have "set S \<inter> fst ` set (es @ [(x, 1)]) = {}"
    using Cons.prems by auto
  with Cons.prems show ?case
    by (simp add: al_subscript_fresh [OF x] Cons.IH)
qed

lemma count_keys_alist_distinct:
  "distinct S \<Longrightarrow> count_keys alist_Hashmap S = map (\<lambda>k. (k, 1)) S"
  using fold_al_subscript_fresh [of S "[]"] by (simp add: count_keys_def alist_Hashmap_def)

lemma reconstruct_append:
  "reconstruct (es1 @ es2) st =
     (case reconstruct es1 st of Inl e \<Rightarrow> Inl e | Inr st' \<Rightarrow> reconstruct es2 st')"
  by (induction es1 arbitrary: st) (auto split: sum.splits)

lemma copies_ones: "copies (map (\<lambda>k. (k, 1)) ks) = ks"
  by (induction ks) simp_all

lemma histogramSort_loops_alist_distinct_overflow:
  assumes len: "length S = 2147483649" and d: "distinct S"
  shows "histogramSort_loops alist_Hashmap S = Inl OutOfBounds"
proof -
  define S1 where "S1 = take 2147483647 S"
  define x where "x = S ! 2147483647"
  define y where "y = S ! 2147483648"
  have l1: "length S1 = 2147483647"
    using len by (simp add: S1_def)
  have S: "S = S1 @ [x, y]"
  proof (rule nth_equalityI)
    show "length S = length (S1 @ [x, y])"
      by (simp add: len l1)
    fix i assume "i < length S"
    then consider "i < 2147483647" | "i = 2147483647" | "i = 2147483648"
      using len by linarith
    then show "S ! i = (S1 @ [x, y]) ! i"
      by cases (simp_all add: nth_append S1_def x_def y_def len)
  qed
  let ?E1 = "map (\<lambda>k. (k, 1)) S1"
  have entries: "hm_entries alist_Hashmap (count_keys alist_Hashmap S) = ?E1 @ [(x, 1), (y, 1)]"
    using count_keys_alist_distinct [OF d] by (simp add: alist_Hashmap_def) (simp add: S)
  have "reconstruct ?E1 (S, 0) =
     Inr (take (nat (sint (0 :: int32))) S @ copies ?E1 @
            drop (nat (sint (0 :: int32)) + length (copies ?E1)) S,
          0 + word_of_nat (length (copies ?E1)))"
    by (intro reconstruct_run) (simp_all add: copies_ones l1 len)
  moreover have "S1 @ drop 2147483647 S = S"
    by (simp add: S1_def)
  ultimately have first: "reconstruct ?E1 (S, 0) = Inr (S, 2147483647)"
    by (simp add: copies_ones l1)
  have wx: "write_copies 0 1 x (S, 2147483647) = Inr (S[2147483647 := x], 2147483648)"
    by (simp add: write_copies.simps [of 0] write_copies.simps [of 1] vec_write_def
        word_sless_alt len)
  have wy: "write_copies 0 1 y (S', 2147483648) = Inl OutOfBounds" for S'
    by (simp add: write_copies.simps [of 0] vec_write_def word_sless_alt)
  show ?thesis
    by (simp add: histogramSort_loops_def entries reconstruct_append first wx wy)
qed

lemma distinct_word_of_nat_upt:
  "n \<le> 2 ^ 32 \<Longrightarrow> distinct (map (word_of_nat :: nat \<Rightarrow> int32) [0..<n])"
proof -
  assume "n \<le> 2 ^ 32"
  then have "set [0..<n] \<subseteq> {0..<2 ^ LENGTH(32)}"
    by auto
  then have "inj_on (word_of_nat :: nat \<Rightarrow> int32) (set [0..<n])"
    by (rule inj_on_subset [OF inj_on_word_of_nat])
  then show ?thesis
    by (simp add: distinct_map)
qed

section \<open>histogramSort: the claims\<close>

text \<open>
  Claim \<^bold>\<open>C1\<close>, for inputs whose length an \<^verbatim>\<open>int\<close> can hold. For every map abstraction
  and every input sequence \<open>S\<close> of at most \<open>2^31 - 1\<close> elements, \<^verbatim>\<open>histogramSort\<close> returns
  a sequence with the length and the multiset of values of \<open>S\<close>. On \<open>2^31\<close> copies of
  \<open>5\<close> followed by \<open>7\<close> the count of \<open>5\<close> has wrapped to a negative number, no copy of
  \<open>5\<close> is written and \<open>7\<close> overwrites position \<open>0\<close>: the output holds \<open>7\<close> twice.
\<close>

theorem histogramSort_permutation:
  assumes "hashmap_spec H I" and "length S < 2 ^ 31"
  shows "\<exists>out. histogramSort H S = Inr out \<and> length out = length S \<and> mset out = mset S"
proof -
  let ?ks = "map fst (hm_entries H (count_keys H S))"
  have ks: "distinct ?ks" "set ?ks = set S"
    using count_keys_entries(1,2) [OF assms(1), of S] by simp_all
  show ?thesis
    using histogramSort_bounded [OF assms] mset_key_groups [OF ks] length_key_groups [OF ks]
    by simp
qed

theorem histogramSort_permutation_witness:
  "histogramSort alist_Hashmap [3, 1, 3, 2] = Inr [3, 3, 1, 2] \<and>
   length [3, 3, 1, 2 :: int32] = length [3, 1, 3, 2 :: int32] \<and>
   mset [3, 3, 1, 2 :: int32] = mset [3, 1, 3, 2]"
proof -
  have run: "histogramSort alist_Hashmap [3, 1, 3, 2] = Inr [3, 3, 1, 2]"
    by code_simp
  show ?thesis
    using histogramSort_permutation [OF alist_Hashmap_spec, of "[3, 1, 3, 2]"]
    by (simp add: run)
qed

theorem histogramSort_permutation_overflow:
  "histogramSort alist_Hashmap (replicate 2147483648 5 @ [7]) =
     Inr ((replicate 2147483648 5 @ [7])[0 := 7]) \<and>
   count (mset ((replicate 2147483648 5 @ [7])[0 := 7 :: int32])) 7 = 2 \<and>
   count (mset (replicate 2147483648 5 @ [7 :: int32])) 7 = 1"
proof -
  have "replicate 2147483648 (5 :: int32) = 5 # replicate 2147483647 5"
    by (simp add: replicate_Suc [symmetric] del: replicate_Suc)
  then have "(replicate 2147483648 5 @ [7])[0 := 7 :: int32] = 7 # replicate 2147483647 5 @ [7]"
    by simp
  then show ?thesis
    by (simp add: histogramSort_alist_overflow)
qed

lemma length_key_groups_sum: "length (key_groups S ks) = sum_list (map (count_list S) ks)"
  by (simp add: key_groups_def length_concat comp_def)

lemma int_sum_list: "int (sum_list (map f xs)) = (\<Sum>x \<leftarrow> xs. int (f x))"
  by (induction xs) simp_all

text \<open>
  Claim \<^bold>\<open>C4\<close>, for inputs whose length an \<^verbatim>\<open>int\<close> can hold. After the counting loop on
  a sequence \<open>S\<close> of at most \<open>2^31 - 1\<close> elements, the keys of the map are distinct and are
  exactly the values of \<open>S\<close>, so each occurs at least once in \<open>S\<close>; the count stored for
  a key is the number of its occurrences in \<open>S\<close>; the counts add up to the length of
  \<open>S\<close>. After \<open>2^31\<close> copies of one key its count is \<open>- 2^31\<close>.
\<close>

theorem count_keys_histogram:
  assumes "hashmap_spec H I" and "length S < 2 ^ 31"
  shows "distinct (map fst (hm_entries H (count_keys H S))) \<and>
         fst ` set (hm_entries H (count_keys H S)) = set S \<and>
         (\<forall>(k, c) \<in> set (hm_entries H (count_keys H S)).
            k \<in> set S \<and> 1 \<le> count_list S k \<and> sint c = int (count_list S k)) \<and>
         (\<Sum>(k, c) \<leftarrow> hm_entries H (count_keys H S). sint c) = int (length S)"
proof -
  let ?es = "hm_entries H (count_keys H S)"
  note ent = count_keys_entries [OF assms(1), where S = S]
  have each: "k \<in> set S \<and> 1 \<le> count_list S k \<and> sint c = int (count_list S k)"
    if "(k, c) \<in> set ?es" for k c
  proof -
    have k: "k \<in> set S"
      using that ent(2) by force
    then have "count_list S k \<noteq> 0"
      by (simp add: count_list_0_iff)
    moreover have "count_list S k < 2 ^ 31"
      using count_list_le_length [of S k] assms(2) by simp
    ultimately show ?thesis
      using k ent(3) [OF that] by (simp add: sint_word_of_nat_small)
  qed
  have "(\<Sum>(k, c) \<leftarrow> ?es. sint c) = (\<Sum>e \<leftarrow> ?es. int (count_list S (fst e)))"
    by (intro arg_cong [where f = sum_list] map_cong) (auto simp: each)
  also have "\<dots> = int (sum_list (map (count_list S) (map fst ?es)))"
    by (simp add: int_sum_list comp_def)
  also have "\<dots> = int (length (key_groups S (map fst ?es)))"
    by (simp only: length_key_groups_sum)
  also have "\<dots> = int (length S)"
    using ent(1,2) by (simp add: length_key_groups)
  finally show ?thesis
    using ent(1,2) each by auto
qed

theorem count_keys_histogram_witness:
  "hm_entries alist_Hashmap (count_keys alist_Hashmap [3, 1, 3, 2]) = [(3, 2), (1, 1), (2, 1)] \<and>
   (\<Sum>(k, c) \<leftarrow> [(3 :: int32, 2 :: int32), (1, 1), (2, 1)]. sint c) =
     int (length [3, 1, 3, 2 :: int32])"
proof -
  have run: "hm_entries alist_Hashmap (count_keys alist_Hashmap [3, 1, 3, 2]) =
      [(3, 2), (1, 1), (2, 1)]"
    by code_simp
  show ?thesis
    using count_keys_histogram [OF alist_Hashmap_spec, of "[3, 1, 3, 2]"]
    by (simp add: run)
qed

theorem count_keys_histogram_overflow:
  "hm_entries alist_Hashmap (count_keys alist_Hashmap (replicate 2147483648 5)) =
     [(5, 2147483648)] \<and>
   sint (2147483648 :: int32) = - 2147483648 \<and>
   count_list (replicate 2147483648 (5 :: int32)) 5 = 2147483648"
proof -
  have "replicate 2147483648 (5 :: int32) = replicate (Suc 2147483647) 5"
    by simp
  then have "count_keys alist_Hashmap (replicate 2147483648 5) =
      [(5, word_of_nat (Suc 2147483647))]"
    by (simp only: count_keys_alist_replicate)
  then show ?thesis
    by (simp add: alist_Hashmap_def count_list_replicate)
qed

text \<open>
  Claim \<^bold>\<open>C6\<close>, for inputs whose length an \<^verbatim>\<open>int\<close> can hold. For an input \<open>S\<close> of at
  most \<open>2^31 - 1\<close> elements the output is, for the distinct keys of the map in its
  iteration order, one run per key holding all the copies of that key. The output
  need not be sorted by key value: the map that iterates in insertion order turns
  \<open>[2, 1]\<close> into \<open>[2, 1]\<close>. On \<open>2^31\<close> copies of \<open>3\<close> followed by \<open>9\<close> the output starts
  with \<open>9\<close>, goes on with \<open>3\<close> and ends with \<open>9\<close>.
\<close>

theorem histogramSort_groups:
  "(hashmap_spec H I \<and> length S < 2 ^ 31 \<longrightarrow>
      distinct (map fst (hm_entries H (count_keys H S))) \<and>
      set (map fst (hm_entries H (count_keys H S))) = set S \<and>
      histogramSort H S = Inr (key_groups S (map fst (hm_entries H (count_keys H S))))) \<and>
   (hashmap_spec alist_Hashmap (\<lambda>m. distinct (map fst m)) \<and>
    histogramSort alist_Hashmap [2, 1] = Inr [2, 1] \<and>
    \<not> sorted_wrt (\<le>s) [2, 1 :: int32])"
proof -
  have "histogramSort alist_Hashmap [2, 1] = Inr [2, 1]"
    by code_simp
  moreover have "\<not> sorted_wrt (\<le>s) [2, 1 :: int32]"
    by (simp add: word_sle_eq)
  ultimately show ?thesis
    using count_keys_entries(1,2) [of H I S] histogramSort_bounded [of H I S] alist_Hashmap_spec
    by simp
qed

theorem histogramSort_groups_witness:
  "hm_entries alist_Hashmap (count_keys alist_Hashmap [3, 1, 3, 2]) = [(3, 2), (1, 1), (2, 1)] \<and>
   histogramSort alist_Hashmap [3, 1, 3, 2] = Inr (key_groups [3, 1, 3, 2] [3, 1, 2]) \<and>
   key_groups [3, 1, 3, 2] [3, 1, 2] = [3, 3, 1, 2]"
proof -
  have run: "hm_entries alist_Hashmap (count_keys alist_Hashmap [3, 1, 3, 2]) =
      [(3, 2), (1, 1), (2, 1)]"
    by code_simp
  have groups: "key_groups [3, 1, 3, 2] [3, 1, 2 :: int32] = [3, 3, 1, 2]"
    by code_simp
  have spec: "hashmap_spec alist_Hashmap (\<lambda>m. distinct (map fst m)) \<and>
      length [3, 1, 3, 2 :: int32] < 2 ^ 31"
    by (simp add: alist_Hashmap_spec)
  show ?thesis
    using histogramSort_groups [of alist_Hashmap "\<lambda>m. distinct (map fst m)" "[3, 1, 3, 2]"] spec
    by (simp add: run groups)
qed

theorem histogramSort_groups_overflow:
  "histogramSort alist_Hashmap (replicate 2147483648 3 @ [9]) =
     Inr (9 # replicate 2147483647 3 @ [9]) \<and>
   (9 # replicate 2147483647 3 @ [9 :: int32]) ! 0 = 9 \<and>
   (9 # replicate 2147483647 3 @ [9 :: int32]) ! 1 = 3 \<and>
   (9 # replicate 2147483647 3 @ [9 :: int32]) ! 2147483648 = 9"
proof -
  have "replicate 2147483648 (3 :: int32) = 3 # replicate 2147483647 3"
    by (simp add: replicate_Suc [symmetric] del: replicate_Suc)
  then have "(replicate 2147483648 3 @ [9])[0 := 9 :: int32] = 9 # replicate 2147483647 3 @ [9]"
    by simp
  moreover have "(replicate 2147483647 3 @ [9 :: int32]) ! 2147483647 = 9"
    by (simp add: nth_append)
  moreover have "(replicate 2147483647 3 @ [9 :: int32]) ! 0 = 3"
    by (simp add: nth_append)
  ultimately show ?thesis
    by (simp add: histogramSort_alist_overflow)
qed

text \<open>
  Claim \<^bold>\<open>C8\<close>, for inputs whose length an \<^verbatim>\<open>int\<close> can hold. For an input of at most
  \<open>2^31 - 1\<close> elements the two loops finish without a write outside the vector (no
  \<open>vec_write\<close> returns \<open>OutOfBounds\<close>, so \<^verbatim>\<open>index\<close> is below the length at every write),
  and \<^verbatim>\<open>index\<close> ends at the length of the input. On \<open>2^31 + 1\<close> distinct values
  \<^verbatim>\<open>index\<close> wraps to \<open>- 2^31\<close> after \<open>2^31\<close> writes and the next write is outside the
  vector.
\<close>

theorem histogramSort_writes_in_bounds:
  assumes "hashmap_spec H I" and "length S < 2 ^ 31"
  shows "\<exists>out index. histogramSort_loops H S = Inr (out, index) \<and>
           sint index = int (length S) \<and> length out = length S"
proof -
  let ?ks = "map fst (hm_entries H (count_keys H S))"
  have ks: "distinct ?ks" "set ?ks = set S"
    using count_keys_entries(1,2) [OF assms(1), of S] by simp_all
  show ?thesis
    using histogramSort_loops_bounded [OF assms] length_key_groups [OF ks] assms(2)
    by (simp add: sint_word_of_nat_small)
qed

theorem histogramSort_writes_in_bounds_witness:
  "histogramSort_loops alist_Hashmap [3, 1, 3, 2] = Inr ([3, 3, 1, 2], 4) \<and>
   sint (4 :: int32) = int (length [3, 1, 3, 2 :: int32])"
proof -
  have run: "histogramSort_loops alist_Hashmap [3, 1, 3, 2] = Inr ([3, 3, 1, 2], 4)"
    by code_simp
  show ?thesis
    using histogramSort_writes_in_bounds [OF alist_Hashmap_spec, of "[3, 1, 3, 2]"]
    by (simp add: run)
qed

theorem histogramSort_writes_out_of_bounds:
  "histogramSort_loops alist_Hashmap (map word_of_nat [0..<2147483649]) = Inl OutOfBounds"
proof (rule histogramSort_loops_alist_distinct_overflow)
  show "length (map (word_of_nat :: nat \<Rightarrow> int32) [0..<2147483649]) = 2147483649"
    by simp
  show "distinct (map (word_of_nat :: nat \<Rightarrow> int32) [0..<2147483649])"
    by (rule distinct_word_of_nat_upt) simp
qed

text \<open>
  The bound is the last length for which \<^verbatim>\<open>index\<close> can end at the length of the input:
  after \<open>2^31\<close> copies of one key the count is negative, no write takes place and
  \<^verbatim>\<open>index\<close> ends at \<open>0\<close>.
\<close>

lemma histogramSort_loops_alist_overflow:
  "histogramSort_loops alist_Hashmap (replicate 2147483648 a) = Inr (replicate 2147483648 a, 0)"
proof -
  have "replicate 2147483648 a = replicate (Suc 2147483647) a"
    by simp
  then have "count_keys alist_Hashmap (replicate 2147483648 a) = [(a, word_of_nat (Suc 2147483647))]"
    by (simp only: count_keys_alist_replicate)
  then show ?thesis
    by (simp add: histogramSort_loops_def alist_Hashmap_def write_copies_none word_sless_alt)
qed

section \<open>The random number library and the generators\<close>

lemma length_assign_each: "length (assign_each L dis data gen) = length data"
  by (induction data arbitrary: gen) (simp_all split: prod.splits)

lemma assign_each_in_range:
  assumes "uniform_int_spec L" and "a \<le>s b"
  shows "x \<in> set (assign_each L (a, b) data gen) \<Longrightarrow> a \<le>s x \<and> x \<le>s b"
proof (induction data arbitrary: gen)
  case Nil
  then show ?case by simp
next
  case (Cons val data)
  obtain val' gen' where draw: "uniform_int_distribution L (a, b) gen = (val', gen')"
    by (cases "uniform_int_distribution L (a, b) gen")
  have "a \<le>s val' \<and> val' \<le>s b"
    using assms(1) [unfolded uniform_int_spec_def, rule_format, OF assms(2), of gen] draw
    by simp
  with Cons draw show ?case
    by auto
qed

lemma assign_each_cong:
  "(\<And>gen. uniform_int_distribution L' dis gen = uniform_int_distribution L dis gen) \<Longrightarrow>
   assign_each L' dis data gen = assign_each L dis data gen"
  by (induction data arbitrary: gen) (simp_all split: prod.splits)

lemma assign_each_nth:
  "i < length data \<Longrightarrow>
   assign_each L dis data gen ! i =
     fst (uniform_int_distribution L dis
            (((\<lambda>gen. snd (uniform_int_distribution L dis gen)) ^^ i) gen))"
proof (induction data arbitrary: i gen)
  case Nil
  then show ?case by simp
next
  case (Cons val data)
  define advance where "advance = (\<lambda>gen. snd (uniform_int_distribution L dis gen))"
  show ?case
  proof (cases i)
    case 0
    then show ?thesis
      by (simp split: prod.splits)
  next
    case (Suc j)
    with Cons.prems have "j < length data"
      by simp
    then have "assign_each L dis data (advance gen) ! j =
        fst (uniform_int_distribution L dis ((advance ^^ j) (advance gen)))"
      unfolding advance_def by (rule Cons.IH)
    moreover have "(advance ^^ j) (advance gen) = (advance ^^ Suc j) gen"
      by (simp add: funpow_swap1)
    moreover have "assign_each L dis (val # data) gen ! Suc j =
        assign_each L dis data (advance gen) ! j"
      by (simp add: advance_def split: prod.splits)
    ultimately show ?thesis
      unfolding Suc advance_def by simp
  qed
qed

lemma sint_static_cast_int: "sz < 2 ^ 31 \<Longrightarrow> sint (static_cast_int sz) = int sz"
  by (simp add: static_cast_int_def sint_word_of_nat_small)

lemma sint_static_cast_int_twice:
  assumes "sz < 2 ^ 30"
  shows "sint (static_cast_int sz * 2) = 2 * int sz"
proof -
  have "2 * sz < 2 ^ 31"
    using assms by simp
  then have "sint (word_of_nat (2 * sz) :: int32) = int (2 * sz)"
    by (rule sint_word_of_nat_small)
  moreover have "static_cast_int sz * 2 = (word_of_nat (2 * sz) :: int32)"
    by (simp add: static_cast_int_def)
  ultimately show ?thesis
    by simp
qed

lemma lcg_uniform_int_spec: "uniform_int_spec lcg_random_lib"
proof -
  have "a \<le>s fst (lcg_draw (a, b) gen) \<and> fst (lcg_draw (a, b) gen) \<le>s b"
    if "a \<le>s b" for a b :: int32 and gen
  proof -
    define r where "r = uint (drop_bit 16 (lcg_next gen)) mod (sint b - sint a + 1)"
    have ab: "sint a \<le> sint b"
      using that by (simp add: word_sle_eq)
    then have m: "0 < sint b - sint a + 1"
      by simp
    have r: "0 \<le> r" "r \<le> sint b - sint a"
      using pos_mod_sign [OF m] pos_mod_bound [OF m] by (simp_all add: r_def)
    have "sint b < 2 ^ 31" "- (2 ^ 31) \<le> sint a"
      using sint_lt [of b] sint_ge [of a] by simp_all
    with r have small: "sint (word_of_int (sint a + r) :: int32) = sint a + r"
      by (intro sint_word_of_int_small) linarith+
    have sum: "a + word_of_int r = word_of_int (sint a + r)"
      by simp
    have "sint (a + word_of_int r) = sint a + r"
      by (simp only: sum small)
    moreover have "fst (lcg_draw (a, b) gen) = a + word_of_int r"
      by (simp add: lcg_draw_def r_def)
    ultimately show ?thesis
      using r by (simp add: word_sle_eq)
  qed
  then show ?thesis
    by (simp add: uniform_int_spec_def lcg_random_lib_def)
qed

lemma mset_rotate1: "mset (rotate1 xs) = mset xs"
  by (cases xs) simp_all

lemma mset_rotate_eq: "mset (rotate n xs) = mset xs"
  by (induction n) (simp_all add: mset_rotate1)

lemma lcg_shuffle_spec: "shuffle_spec lcg_random_lib"
  by (simp add: shuffle_spec_def lcg_random_lib_def mset_rotate_eq)

section \<open>BM\_RandomAccess: setup and measured loop\<close>

lemma hashmap_spec_reserve:
  assumes "hashmap_spec H I" "I m"
  shows "I (hm_reserve H m n)"
    and "map_of (hm_entries H (hm_reserve H m n)) = map_of (hm_entries H m)"
  using assms by (simp_all add: hashmap_spec_def)

lemma hashmap_spec_find:
  "hashmap_spec H I \<Longrightarrow> I m \<Longrightarrow>
   hm_find H m k = map_option (Pair k) (map_of (hm_entries H m) k)"
  by (simp add: hashmap_spec_def)

lemma fold_subscript_assign:
  assumes "hashmap_spec H I"
  shows "I m \<Longrightarrow>
    I (fold (\<lambda>val m. hm_subscript H m val (\<lambda>c. val)) data m) \<and>
    map_of (hm_entries H (fold (\<lambda>val m. hm_subscript H m val (\<lambda>c. val)) data m)) =
      (\<lambda>k. if k \<in> set data then Some k else map_of (hm_entries H m) k)"
proof (induction data arbitrary: m)
  case Nil
  then show ?case by simp
next
  case (Cons x data)
  let ?m = "hm_subscript H m x (\<lambda>c. x)"
  have I: "I ?m"
    and upd: "map_of (hm_entries H ?m) = (map_of (hm_entries H m))(x \<mapsto> x)"
    using hashmap_spec_subscript [OF assms Cons.prems] by simp_all
  show ?case
    using Cons.IH [OF I] by (auto simp: upd fun_eq_iff)
qed

lemma populate_spec:
  assumes "hashmap_spec H I"
  shows "I (populate H sz data)"
    and "map_of (hm_entries H (populate H sz data)) =
      (\<lambda>k. if k \<in> set data then Some k else None)"
proof -
  have new: "I (hm_new H)" and ents: "hm_entries H (hm_new H) = []"
    using hashmap_spec_new [OF assms] by simp_all
  note res = hashmap_spec_reserve [OF assms new, of sz]
  note run = fold_subscript_assign [OF assms res(1), of data]
  show "I (populate H sz data)"
    using run by (simp add: populate_def)
  show "map_of (hm_entries H (populate H sz data)) =
      (\<lambda>k. if k \<in> set data then Some k else None)"
    using run by (auto simp: populate_def res(2) ents fun_eq_iff)
qed

lemma populate_find:
  assumes "hashmap_spec H I" and "key \<in> set data"
  shows "hm_find H (populate H sz data) key = Some (key, key)"
  using assms(2)
  by (simp add: hashmap_spec_find [OF assms(1) populate_spec(1) [OF assms(1)]]
      populate_spec(2) [OF assms(1)])

lemma measured_loop_run:
  assumes "lookup_idx < length lookups"
  shows "measured_loop H m lookups iters (lookup_idx, found) =
     Inr ((lookup_idx + iters) mod length lookups,
          found @ map (\<lambda>i. hm_find H m (lookups ! ((lookup_idx + i) mod length lookups)))
                    [0..<iters])"
  using assms
proof (induction iters arbitrary: lookup_idx found)
  case 0
  then show ?case by simp
next
  case (Suc iters)
  let ?N = "length lookups"
  let ?next = "if lookup_idx + 1 \<ge> ?N then 0 else lookup_idx + 1"
  have next_mod: "?next = (lookup_idx + 1) mod ?N"
    using Suc.prems by (auto simp: le_antisym mod_Suc)
  have next_less: "?next < ?N"
    using Suc.prems by auto
  have step: "(?next + i) mod ?N = (lookup_idx + Suc i) mod ?N" for i
    unfolding next_mod by (simp add: mod_add_left_eq)
  have "measured_loop H m lookups (Suc iters) (lookup_idx, found) =
      measured_loop H m lookups iters (?next, found @ [hm_find H m (lookups ! lookup_idx)])"
    using Suc.prems by (simp add: Let_def)
  also have "\<dots> = Inr ((?next + iters) mod ?N,
      (found @ [hm_find H m (lookups ! lookup_idx)]) @
      map (\<lambda>i. hm_find H m (lookups ! ((?next + i) mod ?N))) [0..<iters])"
    by (rule Suc.IH [OF next_less])
  also have "map (\<lambda>i. hm_find H m (lookups ! ((?next + i) mod ?N))) [0..<iters] =
      map (\<lambda>i. hm_find H m (lookups ! ((lookup_idx + i) mod ?N))) (map Suc [0..<iters])"
    by (simp only: step map_map comp_def)
  also have "[hm_find H m (lookups ! lookup_idx)] =
      map (\<lambda>i. hm_find H m (lookups ! ((lookup_idx + i) mod ?N))) [0]"
    using Suc.prems by simp
  finally show ?case
    by (simp only: step append_assoc map_append [symmetric])
       (simp add: map_Suc_upt upt_conv_Cons del: upt_Suc)
qed

lemma GenerateRandomData_returns:
  assumes "sz < 2 ^ 31"
  shows "GenerateRandomData L sz =
     Inr (assign_each L (GenerateRandomData_dis sz) (replicate sz 0) (mt19937 L 42))"
  using sint_static_cast_int [OF assms]
  by (simp add: GenerateRandomData_def GenerateRandomData_dis_def word_sless_alt)

lemma RandomAccess_GenerateRandomData_returns:
  assumes "sz < 2 ^ 30"
  shows "RandomAccess_GenerateRandomData L sz =
     Inr (assign_each L (RandomAccess_GenerateRandomData_dis sz) (replicate sz 0) (mt19937 L 42))"
proof -
  have "sz < 2 ^ 31"
    using assms by simp
  then have c: "sint (static_cast_int sz) = int sz"
    by (rule sint_static_cast_int)
  have "int sz < 2 ^ 30"
    using assms by (simp only: of_nat_less_numeral_power_cancel_iff)
  then have "int sz * 2 < 2 ^ 31"
    by simp
  then show ?thesis
    using sint_static_cast_int_twice [OF assms]
    by (simp add: RandomAccess_GenerateRandomData_def RandomAccess_GenerateRandomData_dis_def
        c word_sless_alt)
qed

lemma RandomAccess_GenerateRandomData_length:
  "RandomAccess_GenerateRandomData L sz = Inr data \<Longrightarrow> length data = sz"
  by (auto simp: RandomAccess_GenerateRandomData_def length_assign_each split: if_splits)

lemma GenerateRandomData_length:
  "GenerateRandomData L sz = Inr data \<Longrightarrow> length data = sz"
  by (auto simp: GenerateRandomData_def length_assign_each split: if_splits)

lemma BM_RandomAccess_fails:
  "RandomAccess_GenerateRandomData L sz = Inl e \<Longrightarrow> BM_RandomAccess H L sz iters = Inl e"
  by (simp add: BM_RandomAccess_def)

lemma BM_RandomAccess_run:
  assumes "shuffle_spec L" and "0 < sz" and "RandomAccess_GenerateRandomData L sz = Inr data"
  shows "BM_RandomAccess H L sz iters =
     Inr (iters mod sz,
          map (\<lambda>i. hm_find H (populate H sz data)
                 (std_shuffle L data (mt19937 L 123) ! (i mod sz)))
            [0..<iters])"
proof -
  let ?lookups = "std_shuffle L data (mt19937 L 123)"
  have "size (mset ?lookups) = size (mset data)"
    using assms(1) by (simp add: shuffle_spec_def)
  then have len: "length ?lookups = sz"
    using RandomAccess_GenerateRandomData_length [OF assms(3)] by simp
  then have "0 < length ?lookups"
    using assms(2) by simp
  from measured_loop_run [OF this, of H "populate H sz data" iters "[]"] len
  show ?thesis
    by (simp add: BM_RandomAccess_def assms(3) Let_def)
qed

text \<open>
  Claim \<^bold>\<open>C2\<close>. For every size \<open>N > 0\<close>, every map abstraction and every number of
  iterations: when the generator returns its \<open>N\<close> keys, the measured loop finishes and
  every \<^verbatim>\<open>map.find(key)\<close> it performs finds the entry \<open>(key, key)\<close> of a key that the
  setup inserted; when the generator stops with an error, the benchmark stops with it
  before any lookup. For every \<open>N\<close> up to \<open>2^30 - 1\<close> the generator returns. The shuffle
  is only required to permute its argument.
\<close>

theorem BM_RandomAccess_all_hits:
  assumes "hashmap_spec H I" and "shuffle_spec L" and "0 < sz"
  shows "(\<forall>data. RandomAccess_GenerateRandomData L sz = Inr data \<longrightarrow>
            (\<exists>lookup_idx found. BM_RandomAccess H L sz iters = Inr (lookup_idx, found) \<and>
               length found = iters \<and>
               (\<forall>r \<in> set found. \<exists>key \<in> set data. r = Some (key, key)))) \<and>
         (\<forall>e. RandomAccess_GenerateRandomData L sz = Inl e \<longrightarrow>
            BM_RandomAccess H L sz iters = Inl e) \<and>
         (sz < 2 ^ 30 \<longrightarrow>
            (\<exists>data. RandomAccess_GenerateRandomData L sz = Inr data \<and> length data = sz))"
proof (intro conjI allI impI)
  fix data
  assume gen: "RandomAccess_GenerateRandomData L sz = Inr data"
  let ?lookups = "std_shuffle L data (mt19937 L 123)"
  have perm: "mset ?lookups = mset data"
    using assms(2) by (simp add: shuffle_spec_def)
  then have "size (mset ?lookups) = size (mset data)"
    by simp
  then have len: "length ?lookups = sz"
    using RandomAccess_GenerateRandomData_length [OF gen] by simp
  have "set ?lookups = set data"
    using perm by (rule mset_eq_setD)
  then have key: "?lookups ! (i mod sz) \<in> set data" for i
    using len assms(3) by (metis mod_less_divisor nth_mem)
  show "\<exists>lookup_idx found. BM_RandomAccess H L sz iters = Inr (lookup_idx, found) \<and>
      length found = iters \<and> (\<forall>r \<in> set found. \<exists>key \<in> set data. r = Some (key, key))"
    unfolding BM_RandomAccess_run [OF assms(2,3) gen]
    using key by (auto simp: populate_find [OF assms(1)])
next
  fix e
  assume "RandomAccess_GenerateRandomData L sz = Inl e"
  then show "BM_RandomAccess H L sz iters = Inl e"
    by (rule BM_RandomAccess_fails)
next
  assume "sz < 2 ^ 30"
  then show "\<exists>data. RandomAccess_GenerateRandomData L sz = Inr data \<and> length data = sz"
    by (simp add: RandomAccess_GenerateRandomData_returns length_assign_each)
qed

theorem BM_RandomAccess_all_hits_witness:
  "RandomAccess_GenerateRandomData lcg_random_lib 3 = Inr [0, 3, 3] \<and>
   BM_RandomAccess alist_Hashmap lcg_random_lib 3 7 =
     Inr (1, [Some (3, 3), Some (3, 3), Some (0, 0), Some (3, 3), Some (3, 3), Some (0, 0),
              Some (3, 3)])"
proof -
  have data: "RandomAccess_GenerateRandomData lcg_random_lib 3 = Inr [0, 3, 3]"
    by code_simp
  have run: "BM_RandomAccess alist_Hashmap lcg_random_lib 3 7 =
     Inr (1, [Some (3, 3), Some (3, 3), Some (0, 0), Some (3, 3), Some (3, 3), Some (0, 0),
              Some (3, 3)])"
    by code_simp
  have "(0 :: nat) < 3"
    by simp
  from BM_RandomAccess_all_hits [OF alist_Hashmap_spec lcg_shuffle_spec this, of 7]
  show ?thesis
    by (simp add: data run)
qed

text \<open>
  Claim \<^bold>\<open>C7\<close>. On a lookup sequence of \<open>N > 0\<close> keys the measured loop runs for any
  number \<open>k\<close> of iterations without leaving the sequence, and after \<open>k\<close> iterations the
  cursor is \<open>k mod N\<close>, a position in \<open>[0, N)\<close>: it has advanced by one in each iteration
  and gone back to \<open>0\<close> after the last element. This holds of the loop on any map and
  any lookup sequence that is not empty, and so of the benchmark whenever the generator
  returns its \<open>N\<close> keys, as it does for every \<open>N\<close> up to \<open>2^30 - 1\<close>; when the generator
  stops with an error the loop is never entered.
\<close>

theorem BM_RandomAccess_cursor:
  "(lookups \<noteq> [] \<longrightarrow>
      (\<exists>found. measured_loop H m lookups iters (0, []) =
                 Inr (iters mod length lookups, found) \<and> length found = iters) \<and>
      iters mod length lookups < length lookups) \<and>
   (shuffle_spec L \<and> 0 < sz \<longrightarrow>
      (\<forall>data. RandomAccess_GenerateRandomData L sz = Inr data \<longrightarrow>
         (\<exists>found. BM_RandomAccess H L sz iters = Inr (iters mod sz, found) \<and>
            length found = iters \<and> iters mod sz < sz)) \<and>
      (\<forall>e. RandomAccess_GenerateRandomData L sz = Inl e \<longrightarrow>
         BM_RandomAccess H L sz iters = Inl e) \<and>
      (sz < 2 ^ 30 \<longrightarrow>
         (\<exists>data. RandomAccess_GenerateRandomData L sz = Inr data \<and> length data = sz)))"
proof (intro conjI allI impI)
  assume "lookups \<noteq> []"
  then have pos: "0 < length lookups"
    by simp
  from measured_loop_run [OF pos, of H m iters "[]"]
  show "\<exists>found. measured_loop H m lookups iters (0, []) =
      Inr (iters mod length lookups, found) \<and> length found = iters"
    by simp
  from pos show "iters mod length lookups < length lookups"
    by simp
next
  fix data
  assume "shuffle_spec L \<and> 0 < sz" and "RandomAccess_GenerateRandomData L sz = Inr data"
  then show "\<exists>found. BM_RandomAccess H L sz iters = Inr (iters mod sz, found) \<and>
      length found = iters \<and> iters mod sz < sz"
    by (simp add: BM_RandomAccess_run)
next
  fix e
  assume "RandomAccess_GenerateRandomData L sz = Inl e"
  then show "BM_RandomAccess H L sz iters = Inl e"
    by (rule BM_RandomAccess_fails)
next
  assume "sz < 2 ^ 30"
  then show "\<exists>data. RandomAccess_GenerateRandomData L sz = Inr data \<and> length data = sz"
    by (simp add: RandomAccess_GenerateRandomData_returns length_assign_each)
qed

theorem BM_RandomAccess_cursor_witness:
  "measured_loop alist_Hashmap [(0, 0), (4, 4), (8, 8)] [8, 0, 4, 4] 6 (0, []) =
     Inr (2, [Some (8, 8), Some (0, 0), Some (4, 4), Some (4, 4), Some (8, 8), Some (0, 0)]) \<and>
   RandomAccess_GenerateRandomData lcg_random_lib 4 = Inr [0, 4, 4, 8] \<and>
   BM_RandomAccess alist_Hashmap lcg_random_lib 4 6 =
     Inr (2, [Some (8, 8), Some (0, 0), Some (4, 4), Some (4, 4), Some (8, 8), Some (0, 0)]) \<and>
   (6 :: nat) mod 4 = 2"
proof -
  have loop: "measured_loop alist_Hashmap [(0, 0), (4, 4), (8, 8)] [8, 0, 4, 4] 6 (0, []) =
     Inr (2, [Some (8, 8), Some (0, 0), Some (4, 4), Some (4, 4), Some (8, 8), Some (0, 0)])"
    by code_simp
  have data: "RandomAccess_GenerateRandomData lcg_random_lib 4 = Inr [0, 4, 4, 8]"
    by code_simp
  have run: "BM_RandomAccess alist_Hashmap lcg_random_lib 4 6 =
     Inr (2, [Some (8, 8), Some (0, 0), Some (4, 4), Some (4, 4), Some (8, 8), Some (0, 0)])"
    by code_simp
  from BM_RandomAccess_cursor
    [of "[8, 0, 4, 4]" alist_Hashmap "[(0, 0), (4, 4), (8, 8)]" 6 lcg_random_lib 4]
    lcg_shuffle_spec
  show ?thesis
    by (simp add: loop data run)
qed

lemma assign_each_bounds:
  assumes "uniform_int_spec L" and "0 \<le> sint b"
    and "x \<in> set (assign_each L (0, b) data gen)"
  shows "0 \<le> sint x \<and> sint x \<le> sint b"
proof -
  have "0 \<le>s b"
    using assms(2) by (simp add: word_sle_eq)
  from assign_each_in_range [OF assms(1) this assms(3)] show ?thesis
    by (simp add: word_sle_eq)
qed

section \<open>GenerateRandomData: the claims\<close>

text \<open>
  Claim \<^bold>\<open>C3\<close>, generator by generator. Both generators seed their engine with the
  constant 42 and return \<open>N\<close> numbers. In hashmap\_benchmarks.cpp the distribution is
  \<^verbatim>\<open>dis(0, N)\<close> for every \<open>N \<le> 2^31 - 1\<close>, and the numbers lie in \<open>[0, N]\<close>; in
  hashmap\_random\_access.cpp it is \<^verbatim>\<open>dis(0, 2N)\<close> for every \<open>N \<le> 2^30 - 1\<close>, and the
  numbers lie in \<open>[0, 2N]\<close>: for \<open>N = 2\<close> the bounds are \<open>(0, 4)\<close> and the library
  \<open>lcg_random_lib\<close> draws \<open>4\<close>. At \<open>N = 2^31\<close> \<^verbatim>\<open>static_cast<int>(size)\<close> is negative and
  the generator stops before drawing. That the draws are uniform is the library's
  property and is not modelled.
\<close>

theorem GenerateRandomData_range:
  assumes "uniform_int_spec L"
  shows "(sz < 2 ^ 31 \<longrightarrow>
            GenerateRandomData L sz =
              Inr (assign_each L (GenerateRandomData_dis sz) (replicate sz 0) (mt19937 L 42)) \<and>
            (\<exists>data. GenerateRandomData L sz = Inr data \<and> length data = sz \<and>
               (\<forall>x \<in> set data. 0 \<le> sint x \<and> sint x \<le> int sz)) \<and>
            fst (GenerateRandomData_dis sz) = 0 \<and>
            sint (snd (GenerateRandomData_dis sz)) = int sz) \<and>
         (sz < 2 ^ 30 \<longrightarrow>
            RandomAccess_GenerateRandomData L sz =
              Inr (assign_each L (RandomAccess_GenerateRandomData_dis sz) (replicate sz 0)
                     (mt19937 L 42)) \<and>
            (\<exists>data. RandomAccess_GenerateRandomData L sz = Inr data \<and> length data = sz \<and>
               (\<forall>x \<in> set data. 0 \<le> sint x \<and> sint x \<le> 2 * int sz)) \<and>
            fst (RandomAccess_GenerateRandomData_dis sz) = 0 \<and>
            sint (snd (RandomAccess_GenerateRandomData_dis sz)) = 2 * int sz)"
proof (intro conjI impI)
  assume sz: "sz < 2 ^ 31"
  let ?data = "assign_each L (GenerateRandomData_dis sz) (replicate sz 0) (mt19937 L 42)"
  show ret: "GenerateRandomData L sz = Inr ?data"
    using sz by (rule GenerateRandomData_returns)
  have pos: "0 \<le> sint (static_cast_int sz)"
    by (simp add: sint_static_cast_int [OF sz])
  have "0 \<le> sint x \<and> sint x \<le> int sz" if "x \<in> set ?data" for x
    using assign_each_bounds [OF assms pos] that
    by (simp add: GenerateRandomData_dis_def sint_static_cast_int [OF sz])
  then show "\<exists>data. GenerateRandomData L sz = Inr data \<and> length data = sz \<and>
      (\<forall>x \<in> set data. 0 \<le> sint x \<and> sint x \<le> int sz)"
    using ret by (simp add: length_assign_each)
  show "fst (GenerateRandomData_dis sz) = 0"
    by (simp add: GenerateRandomData_dis_def)
  show "sint (snd (GenerateRandomData_dis sz)) = int sz"
    by (simp add: GenerateRandomData_dis_def sint_static_cast_int [OF sz])
next
  assume sz: "sz < 2 ^ 30"
  let ?data = "assign_each L (RandomAccess_GenerateRandomData_dis sz) (replicate sz 0)
      (mt19937 L 42)"
  show ret: "RandomAccess_GenerateRandomData L sz = Inr ?data"
    using sz by (rule RandomAccess_GenerateRandomData_returns)
  have pos: "0 \<le> sint (static_cast_int sz * 2)"
    by (simp add: sint_static_cast_int_twice [OF sz])
  have "0 \<le> sint x \<and> sint x \<le> 2 * int sz" if "x \<in> set ?data" for x
    using assign_each_bounds [OF assms pos] that
    by (simp add: RandomAccess_GenerateRandomData_dis_def sint_static_cast_int_twice [OF sz])
  then show "\<exists>data. RandomAccess_GenerateRandomData L sz = Inr data \<and> length data = sz \<and>
      (\<forall>x \<in> set data. 0 \<le> sint x \<and> sint x \<le> 2 * int sz)"
    using ret by (simp add: length_assign_each)
  show "fst (RandomAccess_GenerateRandomData_dis sz) = 0"
    by (simp add: RandomAccess_GenerateRandomData_dis_def)
  show "sint (snd (RandomAccess_GenerateRandomData_dis sz)) = 2 * int sz"
    by (simp add: RandomAccess_GenerateRandomData_dis_def sint_static_cast_int_twice [OF sz])
qed

theorem GenerateRandomData_range_witness:
  "GenerateRandomData_dis 5 = (0, 5) \<and>
   GenerateRandomData lcg_random_lib 5 = Inr [3, 1, 1, 5, 4] \<and>
   RandomAccess_GenerateRandomData_dis 5 = (0, 10) \<and>
   RandomAccess_GenerateRandomData lcg_random_lib 5 = Inr [6, 4, 0, 6, 6]"
proof -
  have run: "GenerateRandomData lcg_random_lib 5 = Inr [3, 1, 1, 5, 4]"
    "RandomAccess_GenerateRandomData lcg_random_lib 5 = Inr [6, 4, 0, 6, 6]"
    by code_simp+
  have dis: "GenerateRandomData_dis 5 = (0, 5)" "RandomAccess_GenerateRandomData_dis 5 = (0, 10)"
    by (simp_all add: GenerateRandomData_dis_def RandomAccess_GenerateRandomData_dis_def
        static_cast_int_def)
  show ?thesis
    using GenerateRandomData_range [OF lcg_uniform_int_spec, of 5]
    by (simp add: run dis)
qed

theorem GenerateRandomData_range_counterexample:
  "RandomAccess_GenerateRandomData_dis 2 = (0, 4) \<and>
   RandomAccess_GenerateRandomData lcg_random_lib 2 = Inr [4, 1] \<and>
   \<not> sint (4 :: int32) \<le> int 2 \<and>
   sint (snd (GenerateRandomData_dis 2147483648)) = - 2147483648 \<and>
   GenerateRandomData lcg_random_lib 2147483648 = Inl BrokenPrecondition"
proof -
  have "RandomAccess_GenerateRandomData lcg_random_lib 2 = Inr [4, 1]"
    by code_simp
  then show ?thesis
    by (simp add: RandomAccess_GenerateRandomData_dis_def GenerateRandomData_dis_def
        GenerateRandomData_def static_cast_int_def word_sless_alt)
qed

text \<open>The first sizes at which the generators stop before drawing.\<close>

lemma GenerateRandomData_stops:
  "GenerateRandomData L 2147483648 = Inl BrokenPrecondition"
  by (simp add: GenerateRandomData_def GenerateRandomData_dis_def static_cast_int_def
      word_sless_alt)

lemma RandomAccess_GenerateRandomData_stops:
  "RandomAccess_GenerateRandomData L 1073741824 = Inl SignedOverflow"
  by (simp add: RandomAccess_GenerateRandomData_def static_cast_int_def)

lemma BM_RandomAccess_stops: "BM_RandomAccess H L 1073741824 iters = Inl SignedOverflow"
  by (simp add: BM_RandomAccess_fails RandomAccess_GenerateRandomData_stops)

text \<open>
  Claim \<^bold>\<open>C5\<close>. A call of \<^verbatim>\<open>GenerateRandomData\<close> constructs its own engine from the constant
  seed 42 and its own distribution from \<open>N\<close>, and uses nothing else. For every \<open>N\<close>, two
  calls with the same \<open>N\<close> have the same outcome as soon as their engines agree at the
  seed 42 and their distributions agree at the bounds computed from \<open>N\<close>, whatever else
  differs between them. For every \<open>N\<close> up to \<open>2^31 - 1\<close> (\<open>2^30 - 1\<close> in
  hashmap\_random\_access.cpp) that outcome is a sequence of \<open>N\<close> numbers, the one at
  position \<open>i\<close> being the draw of index \<open>i\<close> from the engine seeded with 42: a function of
  the seed and \<open>N\<close>.
\<close>

theorem GenerateRandomData_deterministic:
  "(mt19937 L' 42 = mt19937 L 42 \<and>
    (\<forall>gen. uniform_int_distribution L' (GenerateRandomData_dis N) gen =
            uniform_int_distribution L (GenerateRandomData_dis N) gen) \<and>
    N' = N \<longrightarrow>
    GenerateRandomData L' N' = GenerateRandomData L N) \<and>
   (mt19937 L' 42 = mt19937 L 42 \<and>
    (\<forall>gen. uniform_int_distribution L' (RandomAccess_GenerateRandomData_dis N) gen =
            uniform_int_distribution L (RandomAccess_GenerateRandomData_dis N) gen) \<and>
    N' = N \<longrightarrow>
    RandomAccess_GenerateRandomData L' N' = RandomAccess_GenerateRandomData L N) \<and>
   (N < 2 ^ 31 \<longrightarrow>
      (\<exists>data. GenerateRandomData L N = Inr data \<and> length data = N \<and>
         (\<forall>i < N. data ! i = nth_draw L (GenerateRandomData_dis N) 42 i))) \<and>
   (N < 2 ^ 30 \<longrightarrow>
      (\<exists>data. RandomAccess_GenerateRandomData L N = Inr data \<and> length data = N \<and>
         (\<forall>i < N. data ! i = nth_draw L (RandomAccess_GenerateRandomData_dis N) 42 i)))"
proof (intro conjI impI)
  assume "mt19937 L' 42 = mt19937 L 42 \<and>
    (\<forall>gen. uniform_int_distribution L' (GenerateRandomData_dis N) gen =
            uniform_int_distribution L (GenerateRandomData_dis N) gen) \<and> N' = N"
  then have engine: "mt19937 L' 42 = mt19937 L 42" and N: "N' = N"
    and dis: "\<And>gen. uniform_int_distribution L' (GenerateRandomData_dis N) gen =
      uniform_int_distribution L (GenerateRandomData_dis N) gen"
    by simp_all
  show "GenerateRandomData L' N' = GenerateRandomData L N"
    unfolding GenerateRandomData_def N engine
    by (simp only: assign_each_cong [of L' "GenerateRandomData_dis N" L, OF dis])
next
  assume "mt19937 L' 42 = mt19937 L 42 \<and>
    (\<forall>gen. uniform_int_distribution L' (RandomAccess_GenerateRandomData_dis N) gen =
            uniform_int_distribution L (RandomAccess_GenerateRandomData_dis N) gen) \<and> N' = N"
  then have engine: "mt19937 L' 42 = mt19937 L 42" and N: "N' = N"
    and dis: "\<And>gen. uniform_int_distribution L' (RandomAccess_GenerateRandomData_dis N) gen =
      uniform_int_distribution L (RandomAccess_GenerateRandomData_dis N) gen"
    by simp_all
  show "RandomAccess_GenerateRandomData L' N' = RandomAccess_GenerateRandomData L N"
    unfolding RandomAccess_GenerateRandomData_def N engine
    by (simp only: assign_each_cong [of L' "RandomAccess_GenerateRandomData_dis N" L, OF dis])
next
  assume "N < 2 ^ 31"
  then show "\<exists>data. GenerateRandomData L N = Inr data \<and> length data = N \<and>
      (\<forall>i < N. data ! i = nth_draw L (GenerateRandomData_dis N) 42 i)"
    by (simp add: GenerateRandomData_returns length_assign_each assign_each_nth nth_draw_def)
next
  assume "N < 2 ^ 30"
  then show "\<exists>data. RandomAccess_GenerateRandomData L N = Inr data \<and> length data = N \<and>
      (\<forall>i < N. data ! i = nth_draw L (RandomAccess_GenerateRandomData_dis N) 42 i)"
    by (simp add: RandomAccess_GenerateRandomData_returns length_assign_each assign_each_nth
        nth_draw_def)
qed

theorem GenerateRandomData_deterministic_witness:
  "GenerateRandomData lcg_variant_lib 5 = Inr [3, 1, 1, 5, 4] \<and>
   GenerateRandomData lcg_random_lib 5 = Inr [3, 1, 1, 5, 4] \<and>
   RandomAccess_GenerateRandomData lcg_variant_lib 5 = Inr [6, 4, 0, 6, 6] \<and>
   RandomAccess_GenerateRandomData lcg_random_lib 5 = Inr [6, 4, 0, 6, 6] \<and>
   map (nth_draw lcg_random_lib (GenerateRandomData_dis 5) 42) [0, 1, 2, 3, 4] = [3, 1, 1, 5, 4] \<and>
   mt19937 lcg_variant_lib 7 \<noteq> mt19937 lcg_random_lib 7"
proof -
  have run: "GenerateRandomData lcg_random_lib 5 = Inr [3, 1, 1, 5, 4]"
    "RandomAccess_GenerateRandomData lcg_random_lib 5 = Inr [6, 4, 0, 6, 6]"
    by code_simp+
  have draws: "map (nth_draw lcg_random_lib (0, 5) 42) [0, 1, 2, 3, 4] = [3, 1, 1, 5, 4]"
    by code_simp
  have dis: "GenerateRandomData_dis 5 = (0, 5)" "RandomAccess_GenerateRandomData_dis 5 = (0, 10)"
    by (simp_all add: GenerateRandomData_dis_def RandomAccess_GenerateRandomData_dis_def
        static_cast_int_def)
  have agree: "mt19937 lcg_variant_lib 42 = mt19937 lcg_random_lib 42"
    "uniform_int_distribution lcg_variant_lib (0, 5) gen =
       uniform_int_distribution lcg_random_lib (0, 5) gen"
    "uniform_int_distribution lcg_variant_lib (0, 10) gen =
       uniform_int_distribution lcg_random_lib (0, 10) gen" for gen
    by (simp_all add: lcg_variant_lib_def lcg_random_lib_def)
  have differ: "mt19937 lcg_variant_lib 7 \<noteq> mt19937 lcg_random_lib 7"
    by (simp add: lcg_variant_lib_def lcg_random_lib_def)
  show ?thesis
    using GenerateRandomData_deterministic [of lcg_variant_lib lcg_random_lib 5 5] draws
    by (simp add: run dis agree differ)
qed

end
